theory Spec2Isabelle
  imports Main "HOL-Library.AList" "HOL-Library.Char_ord" "HOL-Library.List_Lexorder"
begin

section \<open>The restaurant manager of \<^verbatim>\<open>qualifier/qualifier.py\<close>\<close>

text \<open>
  \<^verbatim>\<open>RestaurantManager\<close> keeps three attributes: \<^verbatim>\<open>staff\<close>, a dictionary from a
  worker id to the request that registered it; \<^verbatim>\<open>special\<close>, a dictionary from a
  speciality to the set of ids that listed it; and \<^verbatim>\<open>busy\<close>, a set of ids. Its
  \<^verbatim>\<open>__call__\<close> handles one request at a time and dispatches on \<^verbatim>\<open>scope["type"]\<close>.

  The model follows the source statement by statement.
  \<^item> A Python dictionary keeps insertion order and assigning to a present key keeps the
    key's place: an association list with \<open>AList.update\<close> and \<open>AList.delete\<close>.
  \<^item> A Python \<^verbatim>\<open>set\<close> is a HOL set. The order in which a \<^verbatim>\<open>for\<close> loop enumerates a
    set is that of its hash table, which the language leaves open and which, for
    strings, changes from one interpreter process to the next. It is the parameter
    \<open>it\<close> of the model: \<open>it S\<close> is the list of elements the loop yields for \<open>S\<close>.
  \<^item> Every exception is a value of type \<open>error\<close>. An exception leaves the manager
    object alive with the mutations made before the raise, so each operation returns
    the manager it leaves behind together with its outcome.
  \<^item> \<^verbatim>\<open>receive\<close> and \<^verbatim>\<open>send\<close> of a request are callables of the environment. They
    are state transformers on an environment \<open>'w\<close> that return a value or raise. The
    handler also returns the list of the channel operations it has invoked, in order.
  Awaited callables that never return are outside the model, and so is the interleaving
  of several handlers at their \<^verbatim>\<open>await\<close> points: requests are handled one after another.
\<close>

subsection \<open>Data\<close>

datatype error =
    KeyError
  | UnboundLocalError
  | AttributeError
  | Raised nat  \<comment> \<open>an exception raised by a \<^verbatim>\<open>receive\<close> or \<^verbatim>\<open>send\<close> callable\<close>

datatype obj = Obj nat  \<comment> \<open>the opaque payloads that travel through the channels\<close>

text \<open>
  \<^verbatim>\<open>scope\<close> is a mapping from strings to anything. The handler reads the keys
  \<^verbatim>\<open>"type"\<close>, \<^verbatim>\<open>"id"\<close> and \<^verbatim>\<open>"speciality"\<close>; a key that is absent is \<open>None\<close> here and
  a \<^verbatim>\<open>KeyError\<close> in the source. \<^verbatim>\<open>"speciality"\<close> is a list of names in a
  \<^verbatim>\<open>staff.onduty\<close> scope and one name in an \<^verbatim>\<open>order\<close> scope.
\<close>

datatype scope =
    Staff_onduty "string option" "string list option"  \<comment> \<open>id, speciality\<close>
  | Staff_offduty "string option"  \<comment> \<open>id\<close>
  | Order "string option"  \<comment> \<open>speciality\<close>
  | Other_type  \<comment> \<open>a \<^verbatim>\<open>"type"\<close> that no \<^verbatim>\<open>case\<close> matches\<close>
  | No_type  \<comment> \<open>no \<^verbatim>\<open>"type"\<close> key\<close>

record 'w request =
  scope :: scope
  receive :: "'w \<Rightarrow> (error + obj) \<times> 'w"
  send :: "obj \<Rightarrow> 'w \<Rightarrow> error option \<times> 'w"

record 'w manager =
  staff :: "(string \<times> 'w request) list"
  special :: "(string \<times> string set) list"
  busy :: "string set"

text \<open>The channel operations of the \<^verbatim>\<open>order\<close> branch, as the handler invokes them.\<close>

datatype io =
    Request_receive  \<comment> \<open>\<^verbatim>\<open>request.receive()\<close>\<close>
  | Found_send string obj  \<comment> \<open>\<^verbatim>\<open>found.send(full_order)\<close>, with the value of \<^verbatim>\<open>sta\<close>\<close>
  | Found_receive string  \<comment> \<open>\<^verbatim>\<open>found.receive()\<close>\<close>
  | Request_send obj  \<comment> \<open>\<^verbatim>\<open>request.send(result)\<close>\<close>

subsection \<open>\<^verbatim>\<open>__init__\<close>\<close>

definition init :: "'w manager" where
  "init = \<lparr>staff = [], special = [], busy = {}\<rparr>"

subsection \<open>\<^verbatim>\<open>case "staff.onduty"\<close>\<close>

text \<open>
  One turn of the loop over \<^verbatim>\<open>_scope["speciality"]\<close>:
  \<^verbatim>\<open>_special = self.special.get(spe, set()); _special.add(id); self.special[spe] = _special\<close>.
\<close>

definition add_special :: "string \<Rightarrow> string \<Rightarrow> (string \<times> string set) list \<Rightarrow> (string \<times> string set) list" where
  "add_special i spe sp =
     AList.update spe (insert i (case map_of sp spe of None \<Rightarrow> {} | Some s \<Rightarrow> s)) sp"

text \<open>
  The request is stored before \<^verbatim>\<open>_scope["speciality"]\<close> is read, so a scope without
  that key registers the worker and then raises.
\<close>

definition onduty :: "'w manager \<Rightarrow> 'w request \<Rightarrow> string option \<Rightarrow> string list option \<Rightarrow> error option \<times> 'w manager" where
  "onduty m request i spes =
     (case i of
        None \<Rightarrow> (Some KeyError, m)
      | Some i \<Rightarrow>
          let m1 = m\<lparr>staff := AList.update i request (staff m)\<rparr> in
          (case spes of
             None \<Rightarrow> (Some KeyError, m1)
           | Some spes \<Rightarrow> (None, m1\<lparr>special := fold (add_special i) spes (special m1)\<rparr>)))"

subsection \<open>\<^verbatim>\<open>case "staff.offduty"\<close>\<close>

text \<open>
  The loop over \<^verbatim>\<open>self.special.items()\<close> runs first and \<^verbatim>\<open>self.staff.pop\<close> raises
  afterwards when the id is no key of \<^verbatim>\<open>staff\<close>.
\<close>

definition offduty :: "'w manager \<Rightarrow> string option \<Rightarrow> error option \<times> 'w manager" where
  "offduty m i =
     (case i of
        None \<Rightarrow> (Some KeyError, m)
      | Some i \<Rightarrow>
          let m1 = m\<lparr>special := map (\<lambda>(spe, sta). (spe, if i \<in> sta then sta - {i} else sta)) (special m)\<rparr> in
          if i \<in> fst ` set (staff m1)
          then (None, m1\<lparr>staff := AList.delete i (staff m1)\<rparr>)
          else (Some KeyError, m1))"

subsection \<open>\<^verbatim>\<open>case "order"\<close>\<close>

text \<open>
  The two scans. Each returns the values of \<^verbatim>\<open>found\<close> and of the loop variable
  \<^verbatim>\<open>sta\<close> after the loop; \<^verbatim>\<open>sta\<close> is \<open>None\<close> as long as no loop has bound it.
  The first scan enumerates a set and looks every idle id up in \<^verbatim>\<open>staff\<close>.
\<close>

fun scan_special :: "(string \<times> 'w request) list \<Rightarrow> string set \<Rightarrow> string list \<Rightarrow> string option \<Rightarrow>
    error + ('w request option \<times> string option)" where
  "scan_special stf bsy [] sta = Inr (None, sta)"
| "scan_special stf bsy (x # xs) sta =
     (if x \<notin> bsy
      then (case map_of stf x of None \<Rightarrow> Inl KeyError | Some r \<Rightarrow> Inr (Some r, Some x))
      else scan_special stf bsy xs (Some x))"

text \<open>
  The second scan enumerates \<^verbatim>\<open>self.staff.keys()\<close> and reads \<^verbatim>\<open>self.staff[sta]\<close>: the
  entries of the dictionary in insertion order.
\<close>

fun scan_staff :: "string set \<Rightarrow> (string \<times> 'w request) list \<Rightarrow> string option \<Rightarrow>
    'w request option \<times> string option" where
  "scan_staff bsy [] sta = (None, sta)"
| "scan_staff bsy ((x, r) # xs) sta =
     (if x \<notin> bsy then (Some r, Some x) else scan_staff bsy xs (Some x))"

text \<open>
  Lines 53 to 66: \<^verbatim>\<open>found = None\<close>, the scan of the speciality's set when the
  speciality is a key of \<^verbatim>\<open>special\<close>, and the scan of all staff \<^verbatim>\<open>if not found\<close>.
  A request is a dataclass instance and therefore true.
\<close>

definition select :: "(string set \<Rightarrow> string list) \<Rightarrow> 'w manager \<Rightarrow> string \<Rightarrow>
    error + ('w request option \<times> string option)" where
  "select it m spe =
     (case (case map_of (special m) spe of
              None \<Rightarrow> Inr (None, None)
            | Some S \<Rightarrow> scan_special (staff m) (busy m) (it S) None) of
        Inl e \<Rightarrow> Inl e
      | Inr (found, sta) \<Rightarrow>
          (case found of
             Some r \<Rightarrow> Inr (found, sta)
           | None \<Rightarrow> Inr (scan_staff (busy m) (staff m) sta)))"

text \<open>
  Lines 52 to 75. \<^verbatim>\<open>self.busy.add(sta)\<close> needs \<^verbatim>\<open>sta\<close> bound;
  \<^verbatim>\<open>found.send\<close> needs \<^verbatim>\<open>found\<close> to be a request, and is reached after
  \<^verbatim>\<open>request.receive()\<close> has been awaited. No statement catches an exception, so
  \<^verbatim>\<open>self.busy.remove(sta)\<close> runs only after the four awaits have returned.
\<close>

definition order :: "(string set \<Rightarrow> string list) \<Rightarrow> 'w manager \<Rightarrow> 'w request \<Rightarrow> string option \<Rightarrow> 'w \<Rightarrow>
    error option \<times> 'w manager \<times> 'w \<times> io list" where
  "order it m request spe w =
     (case spe of
        None \<Rightarrow> (Some KeyError, m, w, [])
      | Some spe \<Rightarrow>
     (case select it m spe of
        Inl e \<Rightarrow> (Some e, m, w, [])
      | Inr (found, sta) \<Rightarrow>
     (case sta of
        None \<Rightarrow> (Some UnboundLocalError, m, w, [])
      | Some sta \<Rightarrow>
          let m1 = m\<lparr>busy := insert sta (busy m)\<rparr> in
     (case receive request w of
        (Inl e, w1) \<Rightarrow> (Some e, m1, w1, [Request_receive])
      | (Inr full_order, w1) \<Rightarrow>
     (case found of
        None \<Rightarrow> (Some AttributeError, m1, w1, [Request_receive])
      | Some found \<Rightarrow>
     (case send found full_order w1 of
        (Some e, w2) \<Rightarrow> (Some e, m1, w2, [Request_receive, Found_send sta full_order])
      | (None, w2) \<Rightarrow>
     (case receive found w2 of
        (Inl e, w3) \<Rightarrow>
          (Some e, m1, w3, [Request_receive, Found_send sta full_order, Found_receive sta])
      | (Inr result, w3) \<Rightarrow>
     (case send request result w3 of
        (Some e, w4) \<Rightarrow>
          (Some e, m1, w4,
           [Request_receive, Found_send sta full_order, Found_receive sta, Request_send result])
      | (None, w4) \<Rightarrow>
          (None, m1\<lparr>busy := busy m1 - {sta}\<rparr>, w4,
           [Request_receive, Found_send sta full_order, Found_receive sta, Request_send result])))))))))"

subsection \<open>\<^verbatim>\<open>__call__\<close>\<close>

definition call :: "(string set \<Rightarrow> string list) \<Rightarrow> 'w manager \<Rightarrow> 'w request \<Rightarrow> 'w \<Rightarrow>
    error option \<times> 'w manager \<times> 'w \<times> io list" where
  "call it m request w =
     (case scope request of
        Staff_onduty i spes \<Rightarrow> (case onduty m request i spes of (e, m') \<Rightarrow> (e, m', w, []))
      | Staff_offduty i \<Rightarrow> (case offduty m i of (e, m') \<Rightarrow> (e, m', w, []))
      | Order spe \<Rightarrow> order it m request spe w
      | Other_type \<Rightarrow> (None, m, w, [])
      | No_type \<Rightarrow> (Some KeyError, m, w, []))"

text \<open>
  A caller that awaits the manager on one request after the other, as the tests do.
  An exception of one call reaches that call's caller; the manager stays in use. The
  result is the manager and the environment at the end, and for every request its
  outcome and the channel operations invoked for it.
\<close>

fun run :: "(string set \<Rightarrow> string list) \<Rightarrow> 'w manager \<Rightarrow> 'w \<Rightarrow> 'w request list \<Rightarrow>
    'w manager \<times> 'w \<times> (error option \<times> io list) list" where
  "run it m w [] = (m, w, [])"
| "run it m w (r # rs) =
     (case call it m r w of
        (e, m1, w1, tr) \<Rightarrow>
          (case run it m1 w1 rs of (m2, w2, log) \<Rightarrow> (m2, w2, (e, tr) # log)))"

subsection \<open>Notions of the specification\<close>

text \<open>The keys of the staff registry.\<close>

definition registered :: "'w manager \<Rightarrow> string set" where
  "registered m = fst ` set (staff m)"

text \<open>
  The capability index's set for a capability: the set stored under that key, and no
  id when the key is absent.
\<close>

definition advertisers :: "'w manager \<Rightarrow> string \<Rightarrow> string set" where
  "advertisers m c = (case map_of (special m) c of None \<Rightarrow> {} | Some S \<Rightarrow> S)"

text \<open>Every set of the capability index holds registered ids only.\<close>

definition consistent :: "'w manager \<Rightarrow> bool" where
  "consistent m \<longleftrightarrow> (\<forall>(spe, S) \<in> set (special m). S \<subseteq> registered m)"

text \<open>
  The history of a manager is the list of the scopes it has handled, oldest first.
  \<open>lists sc i c\<close>: the scope \<open>sc\<close> is a \<^verbatim>\<open>staff.onduty\<close> scope of worker \<open>i\<close> whose
  speciality list has \<open>c\<close>.
\<close>

fun lists :: "scope \<Rightarrow> string \<Rightarrow> string \<Rightarrow> bool" where
  "lists (Staff_onduty (Some j) (Some cs)) i c = (j = i \<and> c \<in> set cs)"
| "lists sc i c = False"

text \<open>
  The scopes handled after the latest \<^verbatim>\<open>staff.offduty\<close> scope of worker \<open>i\<close>, newest
  first, and whether one of them registered \<open>i\<close> with capability \<open>c\<close>.
\<close>

definition since_offduty :: "scope list \<Rightarrow> string \<Rightarrow> scope list" where
  "since_offduty scs i = takeWhile (\<lambda>sc. sc \<noteq> Staff_offduty (Some i)) (rev scs)"

definition listed_since_offduty :: "scope list \<Rightarrow> string \<Rightarrow> string \<Rightarrow> bool" where
  "listed_since_offduty scs i c = list_ex (\<lambda>sc. lists sc i c) (since_offduty scs i)"

text \<open>
  The reading of the specification: the most recent \<^verbatim>\<open>staff.onduty\<close> scope of worker
  \<open>i\<close> in the history has \<open>c\<close> in its speciality list.
\<close>

fun is_onduty :: "string \<Rightarrow> scope \<Rightarrow> bool" where
  "is_onduty i (Staff_onduty j cs) = (j = Some i)"
| "is_onduty i sc = False"

definition listed_latest :: "scope list \<Rightarrow> string \<Rightarrow> string \<Rightarrow> bool" where
  "listed_latest scs i c =
     (case find (is_onduty i) (rev scs) of None \<Rightarrow> False | Some sc \<Rightarrow> lists sc i c)"

text \<open>
  The reading of the specification for the scan of a capability's advertisers: the
  first key of the staff registry, in registration order, that is in the capability's
  set and not busy.
\<close>

definition first_free_advertiser :: "'w manager \<Rightarrow> string \<Rightarrow> string option" where
  "first_free_advertiser m spe =
     map_option fst (find (\<lambda>(k, r). k \<in> advertisers m spe \<and> k \<notin> busy m) (staff m))"

text \<open>The first entry of the staff registry whose key is not busy.\<close>

definition first_free :: "'w manager \<Rightarrow> (string \<times> 'w request) option" where
  "first_free m = find (\<lambda>(k, r). k \<notin> busy m) (staff m)"

text \<open>
  The number of payloads the handler has sent to worker \<open>i\<close>, counted over the channel
  operations of a run.
\<close>

fun delivered_to :: "string \<Rightarrow> io \<Rightarrow> bool" where
  "delivered_to i (Found_send j p) = (j = i)"
| "delivered_to i c = False"

definition orders_received :: "string \<Rightarrow> (error option \<times> io list) list \<Rightarrow> nat" where
  "orders_received i log = length (filter (delivered_to i) (concat (map snd log)))"

subsection \<open>Example inputs\<close>

text \<open>
  Callables in the manner of the tests' mocks, on an environment that records what
  was sent: a \<^verbatim>\<open>receive\<close> with a fixed return value, a \<^verbatim>\<open>send\<close> that records its
  argument, and a \<^verbatim>\<open>receive\<close> that raises.
\<close>

definition mock_receive :: "obj \<Rightarrow> obj list \<Rightarrow> (error + obj) \<times> obj list" where
  "mock_receive v w = (Inr v, w)"

definition mock_send :: "obj \<Rightarrow> obj list \<Rightarrow> error option \<times> obj list" where
  "mock_send x w = (None, w @ [x])"

definition failing_receive :: "obj list \<Rightarrow> (error + obj) \<times> obj list" where
  "failing_receive w = (Inl (Raised 0), w)"

definition staff_request :: "string \<Rightarrow> string list \<Rightarrow> obj \<Rightarrow> obj list request" where
  "staff_request i spes v =
     \<lparr>scope = Staff_onduty (Some i) (Some spes), receive = mock_receive v, send = mock_send\<rparr>"

definition offduty_request :: "string \<Rightarrow> obj list request" where
  "offduty_request i =
     \<lparr>scope = Staff_offduty (Some i), receive = mock_receive (Obj 0), send = mock_send\<rparr>"

definition order_request :: "string option \<Rightarrow> obj \<Rightarrow> obj list request" where
  "order_request spe v = \<lparr>scope = Order spe, receive = mock_receive v, send = mock_send\<rparr>"

text \<open>
  Two enumeration orders of sets of strings: ascending and descending. Each yields
  every element of a finite set once.
\<close>

definition ascending :: "string set \<Rightarrow> string list" where
  "ascending S = sorted_list_of_set S"

definition descending :: "string set \<Rightarrow> string list" where
  "descending S = rev (sorted_list_of_set S)"

text \<open>
  A small kitchen: Ada grills, Bob grills and fries, and Ada registered first. A second
  registration of Ada lists frying only.
\<close>

definition ada :: "obj list request" where
  "ada = staff_request ''ada'' [''grill''] (Obj 10)"

definition ada_again :: "obj list request" where
  "ada_again = staff_request ''ada'' [''fry''] (Obj 11)"

definition bob :: "obj list request" where
  "bob = staff_request ''bob'' [''grill'', ''fry''] (Obj 20)"

definition kitchen :: "obj list manager" where
  "kitchen = fst (run ascending init [] [ada, bob])"

text \<open>An order for the grill, and one whose \<^verbatim>\<open>receive\<close> raises.\<close>

definition grill_order :: "obj list request" where
  "grill_order = order_request (Some ''grill'') (Obj 1)"

definition failing_order :: "string option \<Rightarrow> obj list request" where
  "failing_order spe = \<lparr>scope = Order spe, receive = failing_receive, send = mock_send\<rparr>"

text \<open>
  The scenario of \<^verbatim>\<open>test_even_staff_distribution\<close> in \<^verbatim>\<open>tests.py\<close>: the five ids of
  \<^verbatim>\<open>STAFF_IDS\<close> go on duty, then a hundred orders arrive. The test's scopes have no
  \<^verbatim>\<open>"speciality"\<close> key. The second variant has the key everywhere: every worker lists
  no speciality and every order names one.
\<close>

definition STAFF_IDS :: "string list" where
  "STAFF_IDS = [''jmMZkSGVBbCDgKKMMSNPS'', ''HeLlOWoRlD123'', ''iKnowThatYouAreReadingThis'',
     ''PyTHonDIscorDCoDEJam'', ''iWAShereWRITINGthis'']"

definition test_staff :: "string \<Rightarrow> obj list request" where
  "test_staff i =
     \<lparr>scope = Staff_onduty (Some i) None, receive = mock_receive (Obj 0), send = mock_send\<rparr>"

definition even_distribution_test :: "obj list request list" where
  "even_distribution_test = map test_staff STAFF_IDS @ replicate 100 (order_request None (Obj 1))"

definition listed_staff :: "string \<Rightarrow> obj list request" where
  "listed_staff i = staff_request i [] (Obj 0)"

definition even_distribution_listed :: "obj list request list" where
  "even_distribution_listed =
     map listed_staff STAFF_IDS @ replicate 100 (order_request (Some ''pasta'') (Obj 1))"

section \<open>Registry and capability index\<close>

subsection \<open>Association lists\<close>

lemma set_update_cases:
  "p \<in> set (AList.update k v al) \<Longrightarrow> p = (k, v) \<or> p \<in> set al"
  by (induction al) (auto split: if_splits)

lemma registered_update: "fst ` set (AList.update i r al) = insert i (fst ` set al)"
  by (simp add: dom_update)

lemma registered_delete: "fst ` set (AList.delete i al) = fst ` set al - {i}"
proof -
  have "set (map fst (AList.delete i al)) = set (map fst al) - {i}"
    by (simp add: delete_keys)
  then show ?thesis by simp
qed

subsection \<open>The index stays within the registry\<close>

lemma add_special_bound:
  assumes "\<forall>(spe, S) \<in> set sp. S \<subseteq> K" and "i \<in> K"
  shows "\<forall>(spe, S) \<in> set (add_special i c sp). S \<subseteq> K"
proof -
  have "(case map_of sp c of None \<Rightarrow> {} | Some s \<Rightarrow> s) \<subseteq> K"
    using assms(1) by (auto split: option.splits dest: map_of_SomeD)
  with assms show ?thesis
    unfolding add_special_def by (auto dest!: set_update_cases)
qed

lemma fold_add_special_bound:
  "\<forall>(spe, S) \<in> set sp. S \<subseteq> K \<Longrightarrow> i \<in> K \<Longrightarrow>
   \<forall>(spe, S) \<in> set (fold (add_special i) cs sp). S \<subseteq> K"
proof (induction cs arbitrary: sp)
  case Nil
  then show ?case by simp
next
  case (Cons c cs)
  from add_special_bound [OF Cons.prems]
  have "\<forall>(spe, S) \<in> set (add_special i c sp). S \<subseteq> K" .
  from Cons.IH [OF this Cons.prems(2)] show ?case by simp
qed

lemma onduty_consistent:
  assumes "consistent m"
  shows "consistent (snd (onduty m r i spes))"
proof (cases i)
  case None
  with assms show ?thesis by (simp add: onduty_def)
next
  case (Some j)
  let ?K = "insert j (registered m)"
  have old: "\<forall>(spe, S) \<in> set (special m). S \<subseteq> ?K"
    using assms by (auto simp: consistent_def)
  show ?thesis
  proof (cases spes)
    case None
    with Some old show ?thesis
      by (simp add: onduty_def consistent_def registered_def registered_update)
  next
    case (Some cs)
    have "\<forall>(spe, S) \<in> set (fold (add_special j) cs (special m)). S \<subseteq> ?K"
      by (rule fold_add_special_bound [OF old]) simp
    with Some \<open>i = Some j\<close> show ?thesis
      by (simp add: onduty_def consistent_def registered_def registered_update)
  qed
qed

text \<open>
  Whether or not \<^verbatim>\<open>pop\<close> raises, \<^verbatim>\<open>staff.offduty\<close> leaves the same manager: the id is
  out of every set and out of the registry.
\<close>

lemma remove_from_sets:
  "map (\<lambda>(spe, sta). (spe, if j \<in> sta then sta - {j} else sta)) sp =
   map (\<lambda>(spe, sta). (spe, sta - {j})) sp"
  by (induction sp) (auto split: if_splits)

lemma offduty_manager:
  "snd (offduty m (Some j)) =
     m\<lparr>special := map (\<lambda>(spe, sta). (spe, sta - {j})) (special m),
       staff := AList.delete j (staff m)\<rparr>"
  by (simp add: offduty_def Let_def remove_from_sets)

lemma offduty_outcome:
  "fst (offduty m (Some j)) = (if j \<in> registered m then None else Some KeyError)"
  by (simp add: offduty_def Let_def registered_def)

lemma offduty_consistent:
  assumes "consistent m"
  shows "consistent (snd (offduty m i))"
proof (cases i)
  case None
  with assms show ?thesis by (simp add: offduty_def)
next
  case (Some j)
  have "S - {j} \<subseteq> registered m - {j}" if "(spe, S) \<in> set (special m)" for spe S
    using assms that by (auto simp: consistent_def)
  then show ?thesis
    unfolding Some offduty_manager
    by (auto simp: consistent_def registered_def registered_delete)
qed

text \<open>The \<^verbatim>\<open>order\<close> branch writes neither \<^verbatim>\<open>staff\<close> nor \<^verbatim>\<open>special\<close>.\<close>

lemma order_frame:
  "order it m r spe w = (e, m', w', tr) \<Longrightarrow> staff m' = staff m \<and> special m' = special m"
  by (auto simp: order_def Let_def split: option.splits sum.splits prod.splits)

lemma call_consistent:
  assumes "consistent m" and "call it m r w = (e, m', w', tr)"
  shows "consistent m'"
proof (cases "scope r")
  case (Staff_onduty i spes)
  with assms(2) have "m' = snd (onduty m r i spes)"
    by (auto simp: call_def split: prod.splits)
  with assms(1) show ?thesis by (simp add: onduty_consistent)
next
  case (Staff_offduty i)
  with assms(2) have "m' = snd (offduty m i)"
    by (auto simp: call_def split: prod.splits)
  with assms(1) show ?thesis by (simp add: offduty_consistent)
next
  case (Order spe)
  with assms(2) have "order it m r spe w = (e, m', w', tr)"
    by (simp add: call_def)
  from order_frame [OF this] assms(1) show ?thesis
    by (simp add: consistent_def registered_def)
next
  case Other_type
  with assms show ?thesis by (simp add: call_def)
next
  case No_type
  with assms show ?thesis by (simp add: call_def)
qed

lemma run_consistent:
  "consistent m \<Longrightarrow> consistent (fst (run it m w rs))"
proof (induction rs arbitrary: m w)
  case Nil
  then show ?case by simp
next
  case (Cons r rs)
  obtain e m1 w1 tr where c: "call it m r w = (e, m1, w1, tr)"
    by (cases "call it m r w") auto
  from call_consistent [OF Cons.prems c] have "consistent m1" .
  from Cons.IH [OF this, of w1] c show ?case
    by (cases "run it m1 w1 rs") simp
qed

lemma init_consistent: "consistent init"
  by (simp add: consistent_def init_def)

text \<open>
  Claim C3. After any finite sequence of requests handled from the initial manager, in
  particular after any sequence of \<^verbatim>\<open>staff.onduty\<close> and \<^verbatim>\<open>staff.offduty\<close> requests,
  every id in any set of the capability index is a key of the staff registry. The
  requests may be of any kind and may raise.
\<close>

theorem index_within_registry:
  "(spe, S) \<in> set (special (fst (run it init w rs))) \<Longrightarrow> i \<in> S \<Longrightarrow>
   i \<in> fst ` set (staff (fst (run it init w rs)))"
  using run_consistent [OF init_consistent, of it w rs]
  by (auto simp: consistent_def registered_def)

theorem index_within_registry_witness:
  "(''grill'', {''ada''}) \<in>
     set (special (fst (run ascending init []
       [staff_request ''ada'' [''grill''] (Obj 1), offduty_request ''bob''])))
   \<and> ''ada'' \<in> fst ` set (staff (fst (run ascending init []
       [staff_request ''ada'' [''grill''] (Obj 1), offduty_request ''bob''])))"
proof -
  have h: "(''grill'', {''ada''}) \<in>
     set (special (fst (run ascending init []
       [staff_request ''ada'' [''grill''] (Obj 1), offduty_request ''bob''])))"
    by (simp add: call_def onduty_def offduty_def init_def staff_request_def
        offduty_request_def add_special_def)
  from index_within_registry [OF h, of "''ada''"] h show ?thesis
    by simp
qed

subsection \<open>The example kitchen\<close>

lemma scope_ada: "scope ada = Staff_onduty (Some ''ada'') (Some [''grill''])"
  by (simp add: ada_def staff_request_def)

lemma scope_ada_again: "scope ada_again = Staff_onduty (Some ''ada'') (Some [''fry''])"
  by (simp add: ada_again_def staff_request_def)

lemma scope_bob: "scope bob = Staff_onduty (Some ''bob'') (Some [''grill'', ''fry''])"
  by (simp add: bob_def staff_request_def)

lemma kitchen_eq:
  "kitchen = \<lparr>staff = [(''ada'', ada), (''bob'', bob)],
     special = [(''grill'', {''bob'', ''ada''}), (''fry'', {''bob''})], busy = {}\<rparr>"
  by (simp add: kitchen_def call_def onduty_def init_def scope_ada scope_bob add_special_def)

subsection \<open>What a call does to the index\<close>

lemma map_of_add_special:
  "map_of (add_special i c sp) c' =
     (if c' = c then Some (insert i (case map_of sp c of None \<Rightarrow> {} | Some s \<Rightarrow> s)) else map_of sp c')"
  by (simp add: add_special_def update_conv')

lemma advertisers_add_special:
  "advertisers (m\<lparr>special := add_special i c (special m)\<rparr>) c' =
     advertisers m c' \<union> (if c' = c then {i} else {})"
  by (auto simp: advertisers_def map_of_add_special split: option.splits)

lemma advertisers_fold_add_special:
  "advertisers (m\<lparr>special := fold (add_special i) cs (special m)\<rparr>) c =
     advertisers m c \<union> (if c \<in> set cs then {i} else {})"
proof (induction cs arbitrary: m)
  case Nil
  then show ?case by simp
next
  case (Cons a cs)
  let ?m1 = "m\<lparr>special := add_special i a (special m)\<rparr>"
  have "advertisers (m\<lparr>special := fold (add_special i) (a # cs) (special m)\<rparr>) c =
        advertisers (?m1\<lparr>special := fold (add_special i) cs (special ?m1)\<rparr>) c"
    by simp
  also have "\<dots> = advertisers ?m1 c \<union> (if c \<in> set cs then {i} else {})"
    by (rule Cons.IH)
  also have "\<dots> = advertisers m c \<union> (if c \<in> set (a # cs) then {i} else {})"
    by (auto simp: advertisers_add_special)
  finally show ?case .
qed

lemma advertisers_staff_update [simp]:
  "advertisers (m\<lparr>staff := s\<rparr>) c = advertisers m c"
  by (simp add: advertisers_def)

lemma advertisers_onduty:
  "advertisers (snd (onduty m r (Some j) (Some cs))) c =
     advertisers m c \<union> (if c \<in> set cs then {j} else {})"
proof -
  let ?m1 = "m\<lparr>staff := AList.update j r (staff m)\<rparr>"
  have "snd (onduty m r (Some j) (Some cs)) = ?m1\<lparr>special := fold (add_special j) cs (special ?m1)\<rparr>"
    by (simp add: onduty_def)
  then show ?thesis
    by (simp only: advertisers_fold_add_special advertisers_staff_update)
qed

lemma map_of_remove:
  "map_of (map (\<lambda>(spe, sta). (spe, sta - {j})) sp) c = map_option (\<lambda>sta. sta - {j}) (map_of sp c)"
  by (induction sp) auto

lemma advertisers_offduty:
  "advertisers (snd (offduty m (Some j))) c = advertisers m c - {j}"
  by (simp add: offduty_manager advertisers_def map_of_remove split: option.splits)

lemma onduty_special_unchanged:
  "i = None \<or> spes = None \<Longrightarrow> special (snd (onduty m r i spes)) = special m"
  by (auto simp: onduty_def Let_def split: option.splits)

lemma onduty_staff:
  "staff (snd (onduty m r (Some j) spes)) = AList.update j r (staff m)"
  by (simp add: onduty_def Let_def split: option.splits)

lemma onduty_busy: "busy (snd (onduty m r i spes)) = busy m"
  by (simp add: onduty_def Let_def split: option.splits)

lemma call_advertisers:
  assumes "call it m r w = (e, m', w', tr)"
  shows "i \<in> advertisers m' c \<longleftrightarrow>
     scope r \<noteq> Staff_offduty (Some i) \<and> (lists (scope r) i c \<or> i \<in> advertisers m c)"
proof (cases "scope r")
  case (Staff_onduty j spes)
  with assms have m': "m' = snd (onduty m r j spes)"
    by (auto simp: call_def split: prod.splits)
  show ?thesis
  proof (cases "j = None \<or> spes = None")
    case True
    have "advertisers m' c = advertisers m c"
      by (simp add: m' advertisers_def onduty_special_unchanged [OF True])
    with True Staff_onduty show ?thesis by (cases j; cases spes) auto
  next
    case False
    then obtain k cs where "j = Some k" "spes = Some cs" by auto
    with Staff_onduty m' show ?thesis by (auto simp: advertisers_onduty)
  qed
next
  case (Staff_offduty j)
  with assms have m': "m' = snd (offduty m j)"
    by (auto simp: call_def split: prod.splits)
  show ?thesis
  proof (cases j)
    case None
    with m' Staff_offduty show ?thesis by (simp add: offduty_def)
  next
    case (Some k)
    with m' Staff_offduty show ?thesis by (auto simp: advertisers_offduty)
  qed
next
  case (Order spe)
  with assms have "order it m r spe w = (e, m', w', tr)"
    by (simp add: call_def)
  from order_frame [OF this] Order show ?thesis
    by (simp add: advertisers_def)
next
  case Other_type
  with assms show ?thesis by (simp add: call_def)
next
  case No_type
  with assms show ?thesis by (simp add: call_def)
qed

lemma run_append:
  "run it m w (rs @ rs') =
     (case run it m w rs of
        (m1, w1, log1) \<Rightarrow> (case run it m1 w1 rs' of (m2, w2, log2) \<Rightarrow> (m2, w2, log1 @ log2)))"
  by (induction rs arbitrary: m w) (auto split: prod.splits)

lemma listed_since_offduty_snoc:
  "listed_since_offduty (scs @ [sc]) i c =
     (sc \<noteq> Staff_offduty (Some i) \<and> (lists sc i c \<or> listed_since_offduty scs i c))"
  by (simp add: listed_since_offduty_def since_offduty_def)

lemma run_advertisers:
  "i \<in> advertisers (fst (run it init w rs)) c \<longleftrightarrow> listed_since_offduty (map scope rs) i c"
proof (induction rs rule: rev_induct)
  case Nil
  show ?case
    by (simp add: advertisers_def init_def listed_since_offduty_def since_offduty_def)
next
  case (snoc r rs)
  obtain m1 w1 log1 where r1: "run it init w rs = (m1, w1, log1)"
    by (cases "run it init w rs") auto
  obtain e m2 w2 tr where c: "call it m1 r w1 = (e, m2, w2, tr)"
    by (cases "call it m1 r w1") auto
  have "fst (run it init w (rs @ [r])) = m2"
    by (simp add: run_append r1 c)
  then have "i \<in> advertisers (fst (run it init w (rs @ [r]))) c \<longleftrightarrow>
        scope r \<noteq> Staff_offduty (Some i) \<and> (lists (scope r) i c \<or> i \<in> advertisers m1 c)"
    by (simp add: call_advertisers [OF c])
  also have "\<dots> \<longleftrightarrow> (scope r \<noteq> Staff_offduty (Some i) \<and>
        (lists (scope r) i c \<or> listed_since_offduty (map scope rs) i c))"
    using snoc.IH by (simp add: r1)
  finally show ?case
    by (simp add: listed_since_offduty_snoc)
qed

lemma advertisers_registered:
  "consistent m \<Longrightarrow> i \<in> advertisers m c \<Longrightarrow> i \<in> registered m"
  by (auto simp: consistent_def advertisers_def split: option.splits dest!: map_of_SomeD)

text \<open>
  Claim C4, as amended. In every state reached from the initial manager, by
  \<^verbatim>\<open>staff.onduty\<close> and \<^verbatim>\<open>staff.offduty\<close> requests and by any others, a worker id is in
  the index's set for capability \<open>c\<close> if and only if the worker is in the staff registry
  and some \<^verbatim>\<open>staff.onduty\<close> request for that id, handled after the id's latest
  \<^verbatim>\<open>staff.offduty\<close> request, listed \<open>c\<close>. The listings of earlier registrations stay
  until the worker goes off duty.
\<close>

theorem index_reflects_listings:
  "i \<in> advertisers (fst (run it init w rs)) c \<longleftrightarrow>
     i \<in> registered (fst (run it init w rs)) \<and> listed_since_offduty (map scope rs) i c"
  using run_advertisers [of i it w rs c]
    advertisers_registered [OF run_consistent [OF init_consistent], of i it w rs c]
  by blast


theorem index_reflects_listings_witness:
  "''ada'' \<in> advertisers (fst (run ascending init [] [ada, ada_again])) ''grill'' \<and>
   ''ada'' \<in> registered (fst (run ascending init [] [ada, ada_again])) \<and>
   listed_since_offduty (map scope [ada, ada_again]) ''ada'' ''grill''"
proof -
  have "listed_since_offduty (map scope [ada, ada_again]) ''ada'' ''grill''"
    by (simp add: listed_since_offduty_def since_offduty_def scope_ada scope_ada_again)
  moreover have "''ada'' \<in> registered (fst (run ascending init [] [ada, ada_again]))"
    by (simp add: call_def onduty_def init_def scope_ada scope_ada_again registered_def)
  ultimately show ?thesis
    using index_reflects_listings [of "''ada''" ascending "[]" "[ada, ada_again]" "''grill''"] by simp
qed

text \<open>
  The claim as the specification has it, with the most recent registration only, fails
  after Ada has registered for the grill and then again for frying: she is still in the
  set of the grill.
\<close>

theorem latest_registration_counterexample:
  "\<not> (''ada'' \<in> advertisers (fst (run ascending init [] [ada, ada_again])) ''grill'' \<longleftrightarrow>
      ''ada'' \<in> registered (fst (run ascending init [] [ada, ada_again])) \<and>
      listed_latest (map scope [ada, ada_again]) ''ada'' ''grill'')"
  by (simp add: call_def onduty_def init_def scope_ada scope_ada_again add_special_def
      advertisers_def registered_def listed_latest_def)

text \<open>
  Claim C10. Handling a \<^verbatim>\<open>staff.onduty\<close> request removes no id from the index's set
  of any capability, whether the call returns or raises. When the scope has an id, the
  request becomes the registry's entry for that id, replacing an earlier one, and the id
  is in the set of every capability the scope lists: a worker that registers again stays
  in the sets of its earlier registrations.
\<close>

theorem onduty_keeps_index:
  assumes "scope request = Staff_onduty i spes" and "call it m request w = (e, m', w', tr)"
  shows "advertisers m c \<subseteq> advertisers m' c \<and>
    (\<forall>j. i = Some j \<longrightarrow> map_of (staff m') j = Some request) \<and>
    (\<forall>j cs. i = Some j \<and> spes = Some cs \<and> c \<in> set cs \<longrightarrow> j \<in> advertisers m' c)"
proof -
  from assms have m': "m' = snd (onduty m request i spes)"
    by (auto simp: call_def split: prod.splits)
  have "advertisers m c \<subseteq> advertisers m' c"
    using call_advertisers [OF assms(2), of _ c] assms(1) by auto
  moreover have "map_of (staff m') j = Some request" if "i = Some j" for j
    using that by (simp add: m' onduty_staff update_conv')
  moreover have "j \<in> advertisers m' c" if "i = Some j \<and> spes = Some cs \<and> c \<in> set cs" for j cs
    using that by (simp add: m' advertisers_onduty)
  ultimately show ?thesis by blast
qed

theorem onduty_keeps_index_witness:
  "''ada'' \<in> advertisers kitchen ''grill'' \<and>
   ''ada'' \<in> advertisers (fst (snd (call ascending kitchen ada_again []))) ''grill'' \<and>
   ''ada'' \<in> advertisers (fst (snd (call ascending kitchen ada_again []))) ''fry'' \<and>
   map_of (staff (fst (snd (call ascending kitchen ada_again [])))) ''ada'' = Some ada_again"
proof -
  obtain e m' w' tr where c: "call ascending kitchen ada_again [] = (e, m', w', tr)"
    by (cases "call ascending kitchen ada_again []") auto
  have old: "''ada'' \<in> advertisers kitchen ''grill''"
    by (simp add: kitchen_eq advertisers_def)
  from onduty_keeps_index [OF scope_ada_again c, of "''grill''"] onduty_keeps_index [OF scope_ada_again c, of "''fry''"] old
  show ?thesis by (auto simp: c)
qed

lemma unregistered_in_no_set:
  assumes "consistent m" and "j \<notin> registered m"
  shows "map (\<lambda>(spe, sta). (spe, sta - {j})) (special m) = special m"
proof -
  have "(case p of (spe, sta) \<Rightarrow> (spe, sta - {j})) = p" if "p \<in> set (special m)" for p
    using assms that by (auto simp: consistent_def)
  then show ?thesis by (simp add: map_idI)
qed

text \<open>
  Claim C9. In every state reached from the initial manager, a \<^verbatim>\<open>staff.offduty\<close>
  request for an id that is no key of the staff registry raises \<^verbatim>\<open>KeyError\<close> and leaves
  the whole manager as it was; for a registered id the call returns, the registry entry
  is deleted and the id is taken out of every set of the index, with \<^verbatim>\<open>busy\<close> untouched.
\<close>

theorem offduty_raises_or_removes:
  assumes "m = fst (run it init w0 rs)" and "scope request = Staff_offduty (Some j)"
  shows "(j \<notin> registered m \<longrightarrow> call it m request w = (Some KeyError, m, w, [])) \<and>
    (j \<in> registered m \<longrightarrow>
      (\<exists>m'. call it m request w = (None, m', w, []) \<and>
        staff m' = AList.delete j (staff m) \<and>
        special m' = map (\<lambda>(spe, sta). (spe, sta - {j})) (special m) \<and>
        busy m' = busy m \<and> j \<notin> registered m' \<and> (\<forall>c. j \<notin> advertisers m' c)))"
proof -
  have cons: "consistent m"
    unfolding assms(1) by (rule run_consistent [OF init_consistent])
  have c: "call it m request w = (fst (offduty m (Some j)), snd (offduty m (Some j)), w, [])"
    by (simp add: call_def assms(2) split: prod.splits)
  have "snd (offduty m (Some j)) = m" if "j \<notin> registered m"
    using that unregistered_in_no_set [OF cons that]
    by (simp add: offduty_manager registered_def)
  moreover have "j \<notin> registered (snd (offduty m (Some j)))"
    by (simp add: offduty_manager registered_def registered_delete)
  moreover have "j \<notin> advertisers (snd (offduty m (Some j))) c" for c
    by (simp add: advertisers_offduty)
  ultimately show ?thesis
    by (simp add: c offduty_outcome offduty_manager)
qed

theorem offduty_raises_or_removes_witness:
  "call ascending kitchen (offduty_request ''cy'') [] = (Some KeyError, kitchen, [], []) \<and>
   fst (call ascending kitchen (offduty_request ''ada'') []) = None \<and>
   ''ada'' \<notin> registered (fst (snd (call ascending kitchen (offduty_request ''ada'') [])))"
proof -
  have k: "kitchen = fst (run ascending init [] [ada, bob])"
    by (simp add: kitchen_def)
  have cy: "scope (offduty_request ''cy'') = Staff_offduty (Some ''cy'')"
    and ad: "scope (offduty_request ''ada'') = Staff_offduty (Some ''ada'')"
    by (simp_all add: offduty_request_def)
  have "''cy'' \<notin> registered kitchen" and "''ada'' \<in> registered kitchen"
    by (simp_all add: kitchen_eq registered_def)
  with offduty_raises_or_removes [OF k cy, of "[]"] offduty_raises_or_removes [OF k ad, of "[]"]
  show ?thesis by auto
qed

section \<open>Orders\<close>

subsection \<open>The two scans\<close>

lemma scan_special_find:
  "scan_special stf bsy xs sta =
     (case find (\<lambda>x. x \<notin> bsy) xs of
        None \<Rightarrow> Inr (None, if xs = [] then sta else Some (last xs))
      | Some x \<Rightarrow> (case map_of stf x of None \<Rightarrow> Inl KeyError | Some r \<Rightarrow> Inr (Some r, Some x)))"
  by (induction xs arbitrary: sta) (auto split: option.splits)

lemma scan_staff_find:
  "scan_staff bsy stf sta =
     (case find (\<lambda>(k, r). k \<notin> bsy) stf of
        None \<Rightarrow> (None, if stf = [] then sta else Some (fst (last stf)))
      | Some (x, r) \<Rightarrow> (Some r, Some x))"
  by (induction stf arbitrary: sta) (auto split: option.splits)

lemma find_idle: "find P xs = Some x \<Longrightarrow> P x \<and> x \<in> set xs"
  by (induction xs) (auto split: if_splits)

lemma find_none: "find P xs = None \<longleftrightarrow> (\<forall>x \<in> set xs. \<not> P x)"
  by (induction xs) auto

lemma scan_special_found:
  "scan_special stf bsy xs sta0 = Inr (Some r, sta) \<Longrightarrow> \<exists>x. sta = Some x \<and> x \<notin> bsy"
  by (induction xs arbitrary: sta0) (auto split: if_splits option.splits)

lemma scan_staff_found:
  "scan_staff bsy stf sta0 = (Some r, sta) \<Longrightarrow> \<exists>x. sta = Some x \<and> x \<notin> bsy"
  by (induction stf arbitrary: sta0) (auto split: if_splits)

lemma select_found_idle:
  assumes "select it m spe = Inr (Some found, sta)"
  shows "\<exists>x. sta = Some x \<and> x \<notin> busy m"
proof (cases "map_of (special m) spe")
  case None
  with assms have "scan_staff (busy m) (staff m) None = (Some found, sta)"
    by (simp add: select_def)
  then show ?thesis by (rule scan_staff_found)
next
  case (Some S)
  show ?thesis
  proof (cases "scan_special (staff m) (busy m) (it S) None")
    case (Inl e)
    with Some assms show ?thesis by (simp add: select_def)
  next
    case (Inr p)
    obtain f s where p: "p = (f, s)" by (cases p)
    show ?thesis
    proof (cases f)
      case None
      with Some Inr p assms have "scan_staff (busy m) (staff m) s = (Some found, sta)"
        by (simp add: select_def)
      then show ?thesis by (rule scan_staff_found)
    next
      case (Some r)
      with \<open>map_of (special m) spe = Some S\<close> Inr p assms
      have "scan_special (staff m) (busy m) (it S) None = Inr (Some found, sta)"
        by (simp add: select_def)
      then show ?thesis by (rule scan_special_found)
    qed
  qed
qed

subsection \<open>A relay whose four awaits return\<close>

lemma relay_success:
  assumes "scope request = Order (Some spe)"
    and "select it m spe = Inr (Some found, Some sta)"
    and "receive request w = (Inr P, w1)"
    and "send found P w1 = (None, w2)"
    and "receive found w2 = (Inr R, w3)"
    and "send request R w3 = (None, w4)"
  shows "call it m request w =
    (None, m, w4, [Request_receive, Found_send sta P, Found_receive sta, Request_send R])"
proof -
  from select_found_idle [OF assms(2)] have "sta \<notin> busy m" by simp
  then have "m\<lparr>busy := insert sta (busy m) - {sta}\<rparr> = m" by simp
  with assms show ?thesis
    by (simp add: call_def order_def)
qed

subsection \<open>Orders in the example kitchen\<close>

lemma scope_grill_order: "scope grill_order = Order (Some ''grill'')"
  by (simp add: grill_order_def order_request_def)

lemma select_kitchen_grill: "select ascending kitchen ''grill'' = Inr (Some ada, Some ''ada'')"
  by (simp add: select_def kitchen_eq ascending_def)

lemma kitchen_consistent: "consistent kitchen"
  unfolding kitchen_def by (rule run_consistent [OF init_consistent])

lemma grill_order_receive: "receive grill_order w = (Inr (Obj 1), w)"
  by (simp add: grill_order_def order_request_def mock_receive_def)

lemma grill_order_send: "send grill_order x w = (None, w @ [x])"
  by (simp add: grill_order_def order_request_def mock_send_def)

lemma ada_receive: "receive ada w = (Inr (Obj 10), w)"
  by (simp add: ada_def staff_request_def mock_receive_def)

lemma ada_send: "send ada x w = (None, w @ [x])"
  by (simp add: ada_def staff_request_def mock_send_def)

lemma kitchen_grill_order:
  "call ascending kitchen grill_order [] =
     (None, kitchen, [Obj 1, Obj 10],
      [Request_receive, Found_send ''ada'' (Obj 1), Found_receive ''ada'', Request_send (Obj 10)])"
  using relay_success [OF scope_grill_order select_kitchen_grill grill_order_receive ada_send
      ada_receive grill_order_send, of "[]"]
  by simp

text \<open>The descending enumeration yields every element of a finite set once.\<close>

lemma descending_enumerates:
  "finite S \<Longrightarrow> set (descending S) = S \<and> distinct (descending S)"
  by (simp add: descending_def)

subsection \<open>Selection\<close>

text \<open>
  Claim C5, as amended. In a manager whose index is within its registry: when the
  order's speciality is a key of \<^verbatim>\<open>special\<close> and some id of its set is not busy, the
  order goes to an id of that set that is not busy and to the request registered under
  it, namely to the first idle id in the order in which the set is enumerated, whatever
  that order is; other idle workers are not considered. When the speciality is no key of
  \<^verbatim>\<open>special\<close>, or every id of its set is busy, and some registered worker is idle, the
  order goes to the first entry of the staff dictionary, in insertion order, whose id is
  not busy.
\<close>

theorem select_first_idle:
  assumes "consistent m"
  shows "(map_of (special m) spe = Some S \<and> set (it S) = S \<and> S - busy m \<noteq> {} \<longrightarrow>
      (\<exists>x r. select it m spe = Inr (Some r, Some x) \<and>
         find (\<lambda>x. x \<notin> busy m) (it S) = Some x \<and>
         x \<in> S \<and> x \<notin> busy m \<and> map_of (staff m) x = Some r)) \<and>
    ((map_of (special m) spe = None \<or>
      (map_of (special m) spe = Some S \<and> set (it S) = S \<and> S \<subseteq> busy m)) \<and>
     first_free m = Some (x, r) \<longrightarrow>
       select it m spe = Inr (Some r, Some x))"
proof (intro conjI impI)
  assume a: "map_of (special m) spe = Some S \<and> set (it S) = S \<and> S - busy m \<noteq> {}"
  then obtain x where x: "find (\<lambda>x. x \<notin> busy m) (it S) = Some x"
    by (cases "find (\<lambda>x. x \<notin> busy m) (it S)") (auto simp: find_none)
  from find_idle [OF x] a have xS: "x \<in> S" and idle: "x \<notin> busy m"
    by auto
  from a have "(spe, S) \<in> set (special m)"
    by (auto dest: map_of_SomeD)
  with assms xS have "x \<in> fst ` set (staff m)"
    by (auto simp: consistent_def registered_def)
  then obtain r where r: "map_of (staff m) x = Some r"
    by (cases "map_of (staff m) x") (auto simp: map_of_eq_None_iff)
  from a x r have "select it m spe = Inr (Some r, Some x)"
    by (simp add: select_def scan_special_find)
  with x xS idle r
  show "\<exists>x r. select it m spe = Inr (Some r, Some x) \<and>
         find (\<lambda>x. x \<notin> busy m) (it S) = Some x \<and>
         x \<in> S \<and> x \<notin> busy m \<and> map_of (staff m) x = Some r"
    by blast
next
  assume b: "(map_of (special m) spe = None \<or>
      (map_of (special m) spe = Some S \<and> set (it S) = S \<and> S \<subseteq> busy m)) \<and>
     first_free m = Some (x, r)"
  then have ff: "find (\<lambda>(k, r). k \<notin> busy m) (staff m) = Some (x, r)"
    by (simp add: first_free_def)
  show "select it m spe = Inr (Some r, Some x)"
  proof (cases "map_of (special m) spe")
    case None
    with ff show ?thesis
      by (simp add: select_def scan_staff_find)
  next
    case (Some S')
    with b have S: "S' = S" "set (it S) = S" "S \<subseteq> busy m"
      by auto
    then have "find (\<lambda>x. x \<notin> busy m) (it S) = None"
      by (auto simp: find_none)
    with Some S ff show ?thesis
      by (simp add: select_def scan_special_find scan_staff_find)
  qed
qed

theorem select_first_idle_witness:
  "select ascending (kitchen\<lparr>busy := {''bob''}\<rparr>) ''grill'' = Inr (Some ada, Some ''ada'') \<and>
   select ascending (kitchen\<lparr>busy := {''bob''}\<rparr>) ''fry'' = Inr (Some ada, Some ''ada'') \<and>
   select ascending (kitchen\<lparr>busy := {''bob''}\<rparr>) ''soup'' = Inr (Some ada, Some ''ada'')"
proof -
  let ?m = "kitchen\<lparr>busy := {''bob''}\<rparr>"
  have cons: "consistent ?m"
    using kitchen_consistent by (simp add: consistent_def registered_def)
  have grill: "map_of (special ?m) ''grill'' = Some {''bob'', ''ada''} \<and>
      set (ascending {''bob'', ''ada''}) = {''bob'', ''ada''} \<and> {''bob'', ''ada''} - busy ?m \<noteq> {}"
    by (auto simp: kitchen_eq ascending_def)
  have fry: "(map_of (special ?m) ''fry'' = None \<or>
      (map_of (special ?m) ''fry'' = Some {''bob''} \<and> set (ascending {''bob''}) = {''bob''} \<and>
       {''bob''} \<subseteq> busy ?m)) \<and> first_free ?m = Some (''ada'', ada)"
    by (simp add: kitchen_eq ascending_def first_free_def)
  have soup: "(map_of (special ?m) ''soup'' = None \<or>
      (map_of (special ?m) ''soup'' = Some {} \<and> set (ascending {}) = {} \<and>
       {} \<subseteq> busy ?m)) \<and> first_free ?m = Some (''ada'', ada)"
    by (simp add: kitchen_eq ascending_def first_free_def)
  have g: "find (\<lambda>x. x \<notin> busy ?m) (ascending {''bob'', ''ada''}) = Some ''ada''"
    by (simp add: ascending_def kitchen_eq)
  have a: "map_of (staff ?m) ''ada'' = Some ada"
    by (simp add: kitchen_eq)
  from select_first_idle [OF cons, of "''grill''" "{''bob'', ''ada''}" ascending] grill g a
  have "select ascending ?m ''grill'' = Inr (Some ada, Some ''ada'')"
    by auto
  moreover from select_first_idle [OF cons, of "''fry''" "{''bob''}" ascending "''ada''" ada] fry
  have "select ascending ?m ''fry'' = Inr (Some ada, Some ''ada'')"
    by blast
  moreover from select_first_idle [OF cons, of "''soup''" "{}" ascending "''ada''" ada] soup
  have "select ascending ?m ''soup'' = Inr (Some ada, Some ''ada'')"
    by blast
  ultimately show ?thesis by simp
qed

text \<open>
  The claim as the specification has it, with the advertisers scanned in registration
  order, fails when the set is enumerated in another order: Ada registered before Bob,
  both grill and both are idle, and under the descending enumeration the order goes to
  Bob.
\<close>

theorem set_order_counterexample:
  "select descending kitchen ''grill'' = Inr (Some bob, Some ''bob'') \<and>
   first_free_advertiser kitchen ''grill'' = Some ''ada''"
  by (simp add: kitchen_eq select_def descending_def first_free_advertiser_def advertisers_def)

subsection \<open>The relay\<close>

text \<open>
  Claim C7. For an order whose speciality is present, when the scans select a worker
  and each of the four awaited calls returns, the handler invokes exactly four channel
  operations, in this order: the requester's \<^verbatim>\<open>receive\<close>, yielding \<open>P\<close>; the selected
  worker's \<^verbatim>\<open>send\<close> with \<open>P\<close>; the selected worker's \<^verbatim>\<open>receive\<close>, yielding \<open>R\<close>; the
  requester's \<^verbatim>\<open>send\<close> with \<open>R\<close>. The call returns and the manager is as before.
\<close>

theorem relay_round_trip:
  assumes "scope request = Order (Some spe)"
    and "select it m spe = Inr (Some found, Some sta)"
    and "receive request w = (Inr P, w1)"
    and "send found P w1 = (None, w2)"
    and "receive found w2 = (Inr R, w3)"
    and "send request R w3 = (None, w4)"
  shows "call it m request w =
    (None, m, w4, [Request_receive, Found_send sta P, Found_receive sta, Request_send R])"
  using assms by (rule relay_success)

theorem relay_round_trip_witness:
  "call ascending kitchen grill_order [] =
     (None, kitchen, [Obj 1, Obj 10],
      [Request_receive, Found_send ''ada'' (Obj 1), Found_receive ''ada'', Request_send (Obj 10)])"
  using relay_round_trip [OF scope_grill_order select_kitchen_grill grill_order_receive ada_send
      ada_receive grill_order_send, of "[]"]
  by simp

text \<open>
  Claim C1, as amended. For an order for which the scans have bound \<^verbatim>\<open>sta\<close>: when the
  call returns, which it does only after the four awaited calls have returned, the
  selected id is not in the busy set, and the busy set is what it was before the call.
\<close>

theorem busy_released_after_relay:
  assumes "scope request = Order (Some spe)"
    and "select it m spe = Inr (found, Some sta)"
    and "call it m request w = (None, m', w', tr)"
  shows "sta \<notin> busy m' \<and> busy m' = busy m"
proof -
  from assms have o: "order it m request (Some spe) w = (None, m', w', tr)"
    by (simp add: call_def)
  with assms(2) obtain f where f: "found = Some f" and m': "m' = m\<lparr>busy := insert sta (busy m) - {sta}\<rparr>"
    by (auto simp: order_def Let_def split: option.splits sum.splits prod.splits)
  from select_found_idle assms(2) f have "sta \<notin> busy m" by fastforce
  with m' show ?thesis by simp
qed

theorem busy_released_after_relay_witness:
  "''ada'' \<notin> busy (fst (snd (call ascending kitchen grill_order []))) \<and>
   busy (fst (snd (call ascending kitchen grill_order []))) = busy kitchen"
  using busy_released_after_relay [OF scope_grill_order select_kitchen_grill kitchen_grill_order]
    kitchen_grill_order
  by simp

text \<open>
  The claim as the specification has it, with the release on every exit, fails when a
  relay step raises: the requester's \<^verbatim>\<open>receive\<close> raises, the exception leaves the call,
  and Ada stays in the busy set.
\<close>

theorem busy_kept_on_failure_counterexample:
  "call ascending kitchen (failing_order (Some ''grill'')) [] =
     (Some (Raised 0), kitchen\<lparr>busy := {''ada''}\<rparr>, [], [Request_receive])"
  by (simp add: call_def order_def select_def kitchen_eq ascending_def failing_order_def
      failing_receive_def)

subsection \<open>Orders that no worker can take\<close>

text \<open>
  Claim C2, the code at the failing inputs. With no worker registered, no loop binds
  \<^verbatim>\<open>sta\<close> and \<^verbatim>\<open>self.busy.add(sta)\<close> raises \<^verbatim>\<open>UnboundLocalError\<close>. With Ada the only
  worker and busy, left so by an order whose \<^verbatim>\<open>receive\<close> raised, the next order awaits
  the requester's \<^verbatim>\<open>receive\<close> and then raises \<^verbatim>\<open>AttributeError\<close> at \<^verbatim>\<open>found.send\<close>, with
  \<^verbatim>\<open>found\<close> still \<^verbatim>\<open>None\<close>. The source has no \<^verbatim>\<open>NoWorkerAvailable\<close> error.
\<close>

theorem no_idle_worker_unhandled:
  "call it init (request\<lparr>scope := Order (Some spe)\<rparr>) w = (Some UnboundLocalError, init, w, []) \<and>
   snd (snd (run ascending init [] [ada, failing_order (Some ''grill''), order_request (Some ''grill'') (Obj 1)])) =
     [(None, []), (Some (Raised 0), [Request_receive]), (Some AttributeError, [Request_receive])]"
  by (simp add: call_def order_def select_def init_def onduty_def add_special_def scope_ada 
     ascending_def failing_order_def failing_receive_def order_request_def mock_receive_def)

text \<open>
  Claim C6, the code at the failing input. An order whose scope has no
  \<^verbatim>\<open>"speciality"\<close> key raises \<^verbatim>\<open>KeyError\<close> at line 54, before any scan, in every manager:
  no worker is selected and no channel operation is invoked.
\<close>

theorem order_without_speciality_raises:
  "call it m (request\<lparr>scope := Order None\<rparr>) w = (Some KeyError, m, w, [])"
  by (simp add: call_def order_def)

subsection \<open>A hundred orders for five workers\<close>

lemma run_replicate:
  assumes "\<And>w. \<exists>w'. call it m r w = (e, m, w', tr)"
  shows "\<exists>w'. run it m w (replicate n r) = (m, w', replicate n (e, tr))"
proof (induction n arbitrary: w)
  case 0
  show ?case by simp
next
  case (Suc n)
  from assms obtain w1 where c: "call it m r w = (e, m, w1, tr)" by blast
  from Suc.IH [of w1] obtain w2 where "run it m w1 (replicate n r) = (m, w2, replicate n (e, tr))"
    by blast
  with c show ?case by simp
qed

lemma orders_received_append:
  "orders_received i (log1 @ log2) = orders_received i log1 + orders_received i log2"
  by (simp add: orders_received_def)

lemma orders_received_replicate:
  "orders_received i (replicate n (e, tr)) = n * length (filter (delivered_to i) tr)"
  by (induction n) (simp_all add: orders_received_def)

lemma run_log_append:
  assumes "run it m w rs = (m1, w1, log1)" and "run it m1 w1 rs' = (m2, w2, log2)"
  shows "snd (snd (run it m w (rs @ rs'))) = log1 @ log2"
  using assms by (simp add: run_append)

lemma test_staff_run:
  "run it init [] (map test_staff STAFF_IDS) =
    (\<lparr>staff = map (\<lambda>i. (i, test_staff i)) STAFF_IDS, special = [], busy = {}\<rparr>, [],
     replicate 5 (Some KeyError, []))"
  by (simp add: STAFF_IDS_def call_def onduty_def init_def test_staff_def eval_nat_numeral)

lemma listed_staff_run:
  "run it init [] (map listed_staff STAFF_IDS) =
    (\<lparr>staff = map (\<lambda>i. (i, listed_staff i)) STAFF_IDS, special = [], busy = {}\<rparr>, [],
     replicate 5 (None, []))"
  by (simp add: STAFF_IDS_def call_def onduty_def init_def listed_staff_def staff_request_def
      eval_nat_numeral)

lemma listed_order:
  "call it \<lparr>staff = map (\<lambda>i. (i, listed_staff i)) STAFF_IDS, special = [], busy = {}\<rparr>
     (order_request (Some ''pasta'') (Obj 1)) w =
   (None, \<lparr>staff = map (\<lambda>i. (i, listed_staff i)) STAFF_IDS, special = [], busy = {}\<rparr>,
    w @ [Obj 1, Obj 0],
    [Request_receive, Found_send ''jmMZkSGVBbCDgKKMMSNPS'' (Obj 1),
     Found_receive ''jmMZkSGVBbCDgKKMMSNPS'', Request_send (Obj 0)])"
  by (simp add: STAFF_IDS_def call_def order_def select_def order_request_def listed_staff_def
      staff_request_def mock_receive_def mock_send_def)

text \<open>
  Claim C8, the code at the failing input. In the scenario of
  \<^verbatim>\<open>test_even_staff_distribution\<close> no worker receives an order: every call raises
  \<^verbatim>\<open>KeyError\<close> for the missing \<^verbatim>\<open>"speciality"\<close> key. With the key present and no
  worker listing the ordered speciality, the first registered worker receives all
  hundred orders and the other four none: each order finds every worker idle and the
  scan of the staff dictionary stops at its first key.
\<close>

theorem first_worker_takes_all:
  "map (\<lambda>i. orders_received i (snd (snd (run it init [] even_distribution_test)))) STAFF_IDS =
     [0, 0, 0, 0, 0] \<and>
   map (\<lambda>i. orders_received i (snd (snd (run it init [] even_distribution_listed)))) STAFF_IDS =
     [100, 0, 0, 0, 0]"
proof -
  let ?mt = "\<lparr>staff = map (\<lambda>i. (i, test_staff i)) STAFF_IDS, special = [], busy = {}\<rparr> :: obj list manager"
  let ?ml = "\<lparr>staff = map (\<lambda>i. (i, listed_staff i)) STAFF_IDS, special = [], busy = {}\<rparr> :: obj list manager"
  let ?tr = "[Request_receive, Found_send ''jmMZkSGVBbCDgKKMMSNPS'' (Obj 1),
     Found_receive ''jmMZkSGVBbCDgKKMMSNPS'', Request_send (Obj 0)]"
  have "\<And>w. \<exists>w'. call it ?mt (order_request None (Obj 1)) w = (Some KeyError, ?mt, w', [])"
    by (simp add: call_def order_def order_request_def)
  from run_replicate [OF this, of "[]" 100] obtain wt where
    "run it ?mt [] (replicate 100 (order_request None (Obj 1))) =
       (?mt, wt, replicate 100 (Some KeyError, []))"
    by blast
  from run_log_append [OF test_staff_run this]
  have t: "snd (snd (run it init [] even_distribution_test)) =
      replicate 5 (Some KeyError, []) @ replicate 100 (Some KeyError, [])"
    by (simp add: even_distribution_test_def)
  have "\<And>w. \<exists>w'. call it ?ml (order_request (Some ''pasta'') (Obj 1)) w = (None, ?ml, w', ?tr)"
    by (rule exI) (rule listed_order)
  from run_replicate [OF this, of "[]" 100] obtain wl where
    "run it ?ml [] (replicate 100 (order_request (Some ''pasta'') (Obj 1))) =
       (?ml, wl, replicate 100 (None, ?tr))"
    by blast
  from run_log_append [OF listed_staff_run this]
  have l: "snd (snd (run it init [] even_distribution_listed)) =
      replicate 5 (None, []) @ replicate 100 (None, ?tr)"
    by (simp add: even_distribution_listed_def)
  show ?thesis
    unfolding t l
    by (simp add: orders_received_append orders_received_replicate STAFF_IDS_def)
qed

end
